theory Spec2Isabelle
  imports Main
begin

section \<open>Cells, strings and the four tables\<close>

text \<open>
  The program keeps four pandas tables (\<open>listings\<close>, \<open>breakdowns\<close>, \<open>sc_desc\<close>,
  \<open>backup_desc\<close>). A cell of a table is a missing value (\<open>NaN\<close>), a Python string or an
  integer. Strings are lists of bytes; the text handled here is taken to be ASCII.
  Floating-point cells other than \<open>NaN\<close> are not modelled.
\<close>

datatype cell = NaN | Str string | Num int

text \<open>\<open>pd.isna\<close> / \<open>pd.isnull\<close> and \<open>pd.notna\<close> / \<open>pd.notnull\<close>.\<close>

fun isna :: "cell \<Rightarrow> bool" where
  "isna NaN = True"
| "isna (Str s) = False"
| "isna (Num n) = False"

definition notna :: "cell \<Rightarrow> bool" where
  "notna x = (\<not> isna x)"

text \<open>Decimal rendering of an integer, as \<open>str\<close> gives it.\<close>

definition digit_char :: "nat \<Rightarrow> char" where
  "digit_char d = ''0123456789'' ! d"

function str_nat :: "nat \<Rightarrow> string" where
  "str_nat n = (if n < 10 then [digit_char n] else str_nat (n div 10) @ [digit_char (n mod 10)])"
  by pat_completeness auto
termination
  by (relation "measure (\<lambda>n. n)") auto

definition str_int :: "int \<Rightarrow> string" where
  "str_int i = (if i < 0 then CHR ''-'' # str_nat (nat (- i)) else str_nat (nat i))"

text \<open>\<open>str(x)\<close> on a cell; \<open>astype(str)\<close> gives the same text cell by cell.\<close>

fun py_str :: "cell \<Rightarrow> string" where
  "py_str NaN = ''nan''"
| "py_str (Str s) = s"
| "py_str (Num n) = str_int n"

definition astype_str :: "cell \<Rightarrow> string" where
  "astype_str x = py_str x"

text \<open>\<open>s.lower()\<close> on ASCII text, \<open>s.lstrip("0")\<close> and \<open>s.startswith(p)\<close>.\<close>

definition lower_char :: "char \<Rightarrow> char" where
  "lower_char c =
     (case map_of (zip ''ABCDEFGHIJKLMNOPQRSTUVWXYZ'' ''abcdefghijklmnopqrstuvwxyz'') c of
        Some l \<Rightarrow> l
      | None \<Rightarrow> c)"

definition lower :: "string \<Rightarrow> string" where
  "lower s = map lower_char s"

definition lstrip_zeros :: "string \<Rightarrow> string" where
  "lstrip_zeros s = dropWhile (\<lambda>c. c = CHR ''0'') s"

definition startswith :: "string \<Rightarrow> string \<Rightarrow> bool" where
  "startswith s p = (take (length p) s = p)"

record breakdown_row =
  CU :: cell
  CHILD_CU :: cell
  STOCK_CODE :: cell
  QTY :: cell

text \<open>
  A row of \<open>sc_desc\<close>. The program reads \<open>UOI\<close> and \<open>Price\<close> with \<open>.get(..., "")\<close>, so
  these two may be absent (\<open>None\<close>); \<open>Description\<close> is read with \<open>[...]\<close>.
\<close>

record sc_desc_row =
  Stock_Code1 :: cell
  Description :: cell
  UOI :: "cell option"
  Price :: "cell option"

record backup_row =
  SC_backup :: cell
  backupDescrip :: cell

text \<open>A row of \<open>listings\<close> has any number of columns: column label and value, in order.\<close>

type_synonym listing_row = "(string \<times> cell) list"

record tables =
  listings :: "listing_row list"
  breakdowns :: "breakdown_row list"
  sc_desc :: "sc_desc_row list"
  backup_desc :: "backup_row list"

section \<open>Regular-expression search as used by \<open>str.contains\<close>\<close>

text \<open>
  \<open>Series.str.contains(pat, case=...)\<close> is called without \<open>regex=False\<close>, so the
  pattern is compiled as a regular expression and searched for anywhere in the text.
  The fragment of the pattern syntax modelled here is: ordinary characters, which match
  themselves, and \<open>.\<close>, which matches any character but a newline. A pattern that
  uses any other special character is outside the fragment and \<open>re_compile\<close> gives
  \<open>None\<close> for it.
\<close>

datatype regex_item = Literal char | Dot

definition special_chars :: "char list" where
  "special_chars = ''.^$*+?{}[]|()'' @ [CHR 0x5C]"

fun re_compile :: "string \<Rightarrow> regex_item list option" where
  "re_compile [] = Some []"
| "re_compile (c # cs) =
     (if c = CHR ''.'' then map_option ((#) Dot) (re_compile cs)
      else if c \<in> set special_chars then None
      else map_option ((#) (Literal c)) (re_compile cs))"

fun item_matches :: "bool \<Rightarrow> regex_item \<Rightarrow> char \<Rightarrow> bool" where
  "item_matches cs Dot c = (c \<noteq> CHR 0x0A)"
| "item_matches cs (Literal l) c = (if cs then l = c else lower_char l = lower_char c)"

fun match_here :: "bool \<Rightarrow> regex_item list \<Rightarrow> string \<Rightarrow> bool" where
  "match_here cs [] s = True"
| "match_here cs (p # ps) [] = False"
| "match_here cs (p # ps) (c # s) = (item_matches cs p c \<and> match_here cs ps s)"

fun re_search :: "bool \<Rightarrow> regex_item list \<Rightarrow> string \<Rightarrow> bool" where
  "re_search cs re [] = match_here cs re []"
| "re_search cs re (c # s) = (match_here cs re (c # s) \<or> re_search cs re s)"

definition str_contains :: "string \<Rightarrow> bool \<Rightarrow> string \<Rightarrow> bool option" where
  "str_contains pat cs s = map_option (\<lambda>re. re_search cs re s) (re_compile pat)"

section \<open>\<open>load_data\<close>\<close>

text \<open>The two lambdas and the local function that \<open>load_data\<close> applies to columns.\<close>

definition strip_leading_zeros :: "cell \<Rightarrow> cell" where
  "strip_leading_zeros x = (if notna x then Str (lstrip_zeros (py_str x)) else x)"

fun remove_sc000_prefix :: "cell \<Rightarrow> cell" where
  "remove_sc000_prefix (Str val) =
     (if startswith (lower val) ''sc000'' then Str (drop 5 val) else Str val)"
| "remove_sc000_prefix val = val"

definition is_unnamed :: "string \<Rightarrow> bool" where
  "is_unnamed col = (str_contains ''Unnamed:'' True col = Some True)"

definition load_data ::
  "listing_row list \<Rightarrow> breakdown_row list \<Rightarrow> sc_desc_row list \<Rightarrow> backup_row list \<Rightarrow> tables"
where
  "load_data raw_listings raw_breakdowns raw_sc_desc raw_backup_desc =
     (let listings1 = map (filter (\<lambda>(col, v). \<not> is_unnamed col)) raw_listings;
          breakdowns1 = map (\<lambda>r. r\<lparr>STOCK_CODE := strip_leading_zeros (STOCK_CODE r)\<rparr>) raw_breakdowns;
          sc_desc1 = map (\<lambda>r. r\<lparr>Stock_Code1 := strip_leading_zeros (Stock_Code1 r)\<rparr>) raw_sc_desc;
          breakdowns2 = map (\<lambda>r. r\<lparr>CU := remove_sc000_prefix (CU r)\<rparr>) breakdowns1;
          breakdowns3 = map (\<lambda>r. r\<lparr>CHILD_CU := remove_sc000_prefix (CHILD_CU r)\<rparr>) breakdowns2
      in \<lparr>listings = listings1, breakdowns = breakdowns3, sc_desc = sc_desc1,
          backup_desc = raw_backup_desc\<rparr>)"

section \<open>\<open>recursive_breakdown\<close>\<close>

text \<open>
  The function calls itself once for every row that has a child CU and no stock code.
  Python bounds the depth of nested calls and raises \<open>RecursionError\<close> beyond it; the
  first argument of the model is the number of nested calls still allowed.
\<close>

datatype py_error = RecursionError

text \<open>The \<open>for\<close> loop over \<open>subset.iterrows()\<close>; \<open>rec\<close> is the recursive call.\<close>

fun breakdown_loop ::
  "(cell \<Rightarrow> py_error + breakdown_row list) \<Rightarrow> breakdown_row list \<Rightarrow> breakdown_row list
     \<Rightarrow> py_error + breakdown_row list"
where
  "breakdown_loop rec [] result = Inr result"
| "breakdown_loop rec (row # rest) result =
     (let child_cu = CHILD_CU row; stock_code = STOCK_CODE row in
      if isna stock_code \<and> notna child_cu then
        (case rec child_cu of
           Inl e \<Rightarrow> Inl e
         | Inr deeper \<Rightarrow> breakdown_loop rec rest (result @ deeper))
      else if notna stock_code then breakdown_loop rec rest (result @ [row])
      else breakdown_loop rec rest result)"

fun recursive_breakdown ::
  "nat \<Rightarrow> breakdown_row list \<Rightarrow> cell \<Rightarrow> py_error + breakdown_row list"
where
  "recursive_breakdown 0 bd cu = Inl RecursionError"
| "recursive_breakdown (Suc depth) bd cu =
     (let cu_str = py_str cu in
      if Str cu_str \<notin> set (map CU bd) then Inr []
      else breakdown_loop (recursive_breakdown depth bd)
             (filter (\<lambda>r. CU r = Str cu_str) bd) [])"

section \<open>\<open>get_sc_description\<close>\<close>

record sc_info =
  info_Description :: cell
  info_UOI :: cell
  info_Price :: cell

definition get_default :: "cell option \<Rightarrow> cell \<Rightarrow> cell" where
  "get_default field dflt = (case field of None \<Rightarrow> dflt | Some v \<Rightarrow> v)"

definition get_sc_description :: "sc_desc_row list \<Rightarrow> backup_row list \<Rightarrow> cell \<Rightarrow> sc_info" where
  "get_sc_description sc_desc_t backup_desc_t sc_id =
     (let sc_str = py_str sc_id;
          main_info = filter (\<lambda>r. astype_str (Stock_Code1 r) = sc_str) sc_desc_t
      in if main_info \<noteq> [] then
           \<lparr>info_Description = Description (hd main_info),
            info_UOI = get_default (UOI (hd main_info)) (Str ''''),
            info_Price = get_default (Price (hd main_info)) (Str '''')\<rparr>
         else
           (let backup_info = filter (\<lambda>r. astype_str (SC_backup r) = sc_str) backup_desc_t
            in if backup_info \<noteq> [] then
                 \<lparr>info_Description = backupDescrip (hd backup_info),
                  info_UOI = Str '''', info_Price = Str ''''\<rparr>
               else
                 \<lparr>info_Description = Str ''No Description Found'',
                  info_UOI = Str '''', info_Price = Str ''''\<rparr>))"

section \<open>The search handler\<close>

text \<open>
  \<open>listings[listings.apply(lambda row: row.astype(str).str.contains(search_query,
  case=False).any(), axis=1)]\<close>. The result is \<open>None\<close> when the query is a pattern
  outside the modelled fragment.
\<close>

definition search :: "listing_row list \<Rightarrow> string \<Rightarrow> listing_row list option" where
  "search listings_t search_query =
     map_option
       (\<lambda>re. filter (\<lambda>row. \<exists>v \<in> set (map (astype_str \<circ> snd) row). re_search False re v) listings_t)
       (re_compile search_query)"

section \<open>Notions used to state the properties\<close>

text \<open>
  A row is broken down further when it has a child CU and no stock code (the first
  branch of the loop). \<open>contribution\<close> is what one row of the subset adds to the
  result, given the recursive call. \<open>descent_edges\<close> is the graph the recursion
  walks: an edge from a parent id to the text of the child id, for every row that is
  broken down further.
\<close>

definition needs_breakdown :: "breakdown_row \<Rightarrow> bool" where
  "needs_breakdown row = (isna (STOCK_CODE row) \<and> notna (CHILD_CU row))"

definition contribution :: "(cell \<Rightarrow> py_error + breakdown_row list) \<Rightarrow> breakdown_row \<Rightarrow> breakdown_row list" where
  "contribution rec row =
     (if needs_breakdown row then (case rec (CHILD_CU row) of Inl e \<Rightarrow> [] | Inr deeper \<Rightarrow> deeper)
      else if notna (STOCK_CODE row) then [row]
      else [])"

definition descent_edges :: "breakdown_row list \<Rightarrow> (string \<times> string) set" where
  "descent_edges bd =
     {(p, c). \<exists>row \<in> set bd. CU row = Str p \<and> needs_breakdown row \<and> c = py_str (CHILD_CU row)}"

text \<open>
  \<open>child_edges\<close> is the whole parent-to-child graph of the table: an edge for every
  row with a child CU, whether or not the row has a stock code. It contains
  \<open>descent_edges\<close>.
\<close>

definition child_edges :: "breakdown_row list \<Rightarrow> (string \<times> string) set" where
  "child_edges bd =
     {(p, c). \<exists>row \<in> set bd. CU row = Str p \<and> notna (CHILD_CU row) \<and> c = py_str (CHILD_CU row)}"

text \<open>
  \<open>has_sc000_prefix\<close> is the test of \<open>remove_sc000_prefix\<close>: a string that begins
  with \<open>sc000\<close> in any mix of cases.
\<close>

definition has_sc000_prefix :: "cell \<Rightarrow> bool" where
  "has_sc000_prefix v = (case v of Str val \<Rightarrow> startswith (lower val) ''sc000'' | _ \<Rightarrow> False)"

text \<open>
  An identifier is in a catalog when the text of some row's identifier equals the text
  of the identifier looked up, the comparison \<open>get_sc_description\<close> makes. The entry
  of a row of the primary catalog has the row's description, unit and price, the last
  two being the empty string where missing; the entry of a row of the backup catalog
  has its description and empty unit and price; \<open>not_found\<close> is the sentinel.
\<close>

definition in_primary :: "sc_desc_row list \<Rightarrow> cell \<Rightarrow> bool" where
  "in_primary sc_desc_t sc_id = (\<exists>r \<in> set sc_desc_t. astype_str (Stock_Code1 r) = py_str sc_id)"


definition primary_entry :: "sc_desc_row \<Rightarrow> sc_info" where
  "primary_entry r =
     \<lparr>info_Description = Description r,
      info_UOI = (case UOI r of None \<Rightarrow> Str '''' | Some u \<Rightarrow> u),
      info_Price = (case Price r of None \<Rightarrow> Str '''' | Some p \<Rightarrow> p)\<rparr>"

definition backup_entry :: "backup_row \<Rightarrow> sc_info" where
  "backup_entry r = \<lparr>info_Description = backupDescrip r, info_UOI = Str '''', info_Price = Str ''''\<rparr>"


text \<open>
  The search as the specification words it: a record is kept when the text of one of
  its attributes contains the query as a substring, cases ignored. \<open>spec_search\<close>
  follows the specification and is compared with \<open>search\<close> below.
\<close>

fun is_substring :: "string \<Rightarrow> string \<Rightarrow> bool" where
  "is_substring sub [] = (sub = [])"
| "is_substring sub (c # s) = (take (length sub) (c # s) = sub \<or> is_substring sub s)"

definition spec_search :: "listing_row list \<Rightarrow> string \<Rightarrow> listing_row list" where
  "spec_search listings_t query =
     filter (\<lambda>row. \<exists>v \<in> set (map (astype_str \<circ> snd) row). is_substring (lower query) (lower v))
       listings_t"

text \<open>The tables of the two scenarios of the specification.\<close>

definition scenario :: "breakdown_row list" where
  "scenario =
     [\<lparr>CU = Str ''10'', CHILD_CU = Str ''20'', STOCK_CODE = NaN, QTY = NaN\<rparr>,
      \<lparr>CU = Str ''20'', CHILD_CU = NaN, STOCK_CODE = Str ''500'', QTY = Num 3\<rparr>,
      \<lparr>CU = Str ''20'', CHILD_CU = NaN, STOCK_CODE = Str ''501'', QTY = Num 1\<rparr>]"

definition cycle_AB :: "breakdown_row list" where
  "cycle_AB =
     [\<lparr>CU = Str ''A'', CHILD_CU = Str ''B'', STOCK_CODE = NaN, QTY = NaN\<rparr>,
      \<lparr>CU = Str ''B'', CHILD_CU = Str ''A'', STOCK_CODE = NaN, QTY = NaN\<rparr>]"

text \<open>
  A stock-code row whose child CU is its own parent, followed by a row with neither;
  and a raw table with a stock code made of zeros only.
\<close>

definition leaf_with_child :: "breakdown_row list" where
  "leaf_with_child =
     [\<lparr>CU = Str ''A'', CHILD_CU = Str ''A'', STOCK_CODE = Str ''500'', QTY = Num 2\<rparr>,
      \<lparr>CU = Str ''A'', CHILD_CU = NaN, STOCK_CODE = NaN, QTY = NaN\<rparr>]"

definition zero_code_raw :: "breakdown_row list" where
  "zero_code_raw = [\<lparr>CU = Str ''SC00012'', CHILD_CU = NaN, STOCK_CODE = Str ''000'', QTY = Num 4\<rparr>]"

text \<open>
  Raw tables with leading zeros and with the \<open>SC000\<close> prefix, two catalogs with
  duplicate identifiers, a backup catalog whose only description is the text of the
  sentinel, and two listings.
\<close>

definition leading_zero_raw :: "breakdown_row list" where
  "leading_zero_raw =
     [\<lparr>CU = Str ''0123'', CHILD_CU = Str ''0456'', STOCK_CODE = Str ''00500'', QTY = Num 1\<rparr>]"

definition zero_id_catalog :: "sc_desc_row list" where
  "zero_id_catalog = [\<lparr>Stock_Code1 = Num 0, Description = Str ''Bolt'', UOI = None, Price = None\<rparr>]"

definition double_prefix_raw :: "breakdown_row list" where
  "double_prefix_raw =
     [\<lparr>CU = Str ''SC000SC0001'', CHILD_CU = NaN, STOCK_CODE = Str ''007'', QTY = Num 1\<rparr>]"

definition one_prefix_raw :: "breakdown_row list" where
  "one_prefix_raw =
     [\<lparr>CU = Str ''sc00012'', CHILD_CU = Str ''SC00034'', STOCK_CODE = Str ''007'', QTY = Num 1\<rparr>]"


definition primary_cat :: "sc_desc_row list" where
  "primary_cat =
     [\<lparr>Stock_Code1 = Str ''500'', Description = Str ''Bolt'', UOI = Some (Str ''EA''), Price = None\<rparr>,
      \<lparr>Stock_Code1 = Str ''500'', Description = Str ''Bolt, old entry'', UOI = None, Price = Some (Num 3)\<rparr>]"

definition backup_cat :: "backup_row list" where
  "backup_cat =
     [\<lparr>SC_backup = Str ''500'', backupDescrip = Str ''Backup bolt''\<rparr>,
      \<lparr>SC_backup = Str ''501'', backupDescrip = Str ''Bracket''\<rparr>,
      \<lparr>SC_backup = Str ''501'', backupDescrip = Str ''Bracket, old entry''\<rparr>]"

definition abc_listing :: "listing_row list" where
  "abc_listing = [[(''Description 2'', Str ''ABC123'')], [(''Description 2'', Str ''axc''), (''Width'', NaN)]]"

section \<open>The loop and the recursion\<close>

lemma py_error_only: "(e :: py_error) = RecursionError"
  by (cases e) simp

lemma loop_descend:
  "needs_breakdown row \<Longrightarrow>
     breakdown_loop rec (row # rest) acc =
       (case rec (CHILD_CU row) of
          Inl e \<Rightarrow> Inl e
        | Inr deeper \<Rightarrow> breakdown_loop rec rest (acc @ deeper))"
  by (simp add: needs_breakdown_def Let_def)

lemma loop_leaf:
  "notna (STOCK_CODE row) \<Longrightarrow>
     breakdown_loop rec (row # rest) acc = breakdown_loop rec rest (acc @ [row])"
  by (simp add: notna_def Let_def)

lemma loop_skip:
  "\<not> needs_breakdown row \<Longrightarrow> \<not> notna (STOCK_CODE row) \<Longrightarrow>
     breakdown_loop rec (row # rest) acc = breakdown_loop rec rest acc"
  by (auto simp: needs_breakdown_def Let_def)

lemma leaf_not_descend: "notna (STOCK_CODE row) \<Longrightarrow> \<not> needs_breakdown row"
  by (simp add: needs_breakdown_def notna_def)

lemma loop_result:
  "breakdown_loop rec rows acc = Inr res \<longleftrightarrow>
     (\<forall>row \<in> set rows. needs_breakdown row \<longrightarrow> (\<exists>deeper. rec (CHILD_CU row) = Inr deeper)) \<and>
     res = acc @ concat (map (contribution rec) rows)"
proof (induction rows arbitrary: acc)
  case Nil
  show ?case by auto
next
  case (Cons row rows)
  show ?case
  proof (cases "needs_breakdown row")
    case True
    show ?thesis
    proof (cases "rec (CHILD_CU row)")
      case (Inl e)
      with True show ?thesis
        by (simp add: loop_descend del: breakdown_loop.simps)
    next
      case (Inr deeper)
      with True Cons.IH [of "acc @ deeper"] show ?thesis
        by (simp add: loop_descend contribution_def del: breakdown_loop.simps)
    qed
  next
    case False
    show ?thesis
    proof (cases "notna (STOCK_CODE row)")
      case True
      with False Cons.IH [of "acc @ [row]"] show ?thesis
        by (simp add: loop_leaf contribution_def del: breakdown_loop.simps)
    next
      case nl: False
      with False Cons.IH [of acc] show ?thesis
        by (simp add: loop_skip contribution_def del: breakdown_loop.simps)
    qed
  qed
qed

lemma loop_error:
  assumes "row \<in> set rows" and "needs_breakdown row" and "rec (CHILD_CU row) = Inl e"
  shows "breakdown_loop rec rows acc = Inl RecursionError"
proof (cases "breakdown_loop rec rows acc")
  case (Inl e')
  then show ?thesis by (simp add: py_error_only [of e'])
next
  case (Inr res)
  with assms show ?thesis by (auto simp: loop_result)
qed

lemma finite_descent_edges: "finite (descent_edges bd)"
proof -
  have "descent_edges bd \<subseteq> (\<lambda>row. (py_str (CU row), py_str (CHILD_CU row))) ` set bd"
    by (force simp: descent_edges_def)
  then show ?thesis by (rule finite_surj [rotated]) simp
qed

lemma descent_edges_subset: "descent_edges bd \<subseteq> child_edges bd"
  by (auto simp: descent_edges_def child_edges_def needs_breakdown_def)

lemma acyclic_child_edges: "acyclic (child_edges bd) \<Longrightarrow> acyclic (descent_edges bd)"
  by (rule acyclic_subset [OF _ descent_edges_subset])

lemma subset_edge:
  assumes "row \<in> set bd" "CU row = Str (py_str cu)" "needs_breakdown row"
  shows "(py_str cu, py_str (CHILD_CU row)) \<in> descent_edges bd"
  using assms by (auto simp: descent_edges_def)

lemma expansion_terminates:
  assumes "acyclic (descent_edges bd)"
  shows "\<exists>n res. \<forall>depth \<ge> n. recursive_breakdown depth bd cu = Inr res"
proof -
  have wf: "wf ((descent_edges bd)\<inverse>)"
    using finite_descent_edges assms by (rule finite_acyclic_wf_converse)
  have "\<forall>cu. py_str cu = s \<longrightarrow> (\<exists>n res. \<forall>depth \<ge> n. recursive_breakdown depth bd cu = Inr res)" for s
  using wf proof (induction s rule: wf_induct_rule)
    case (less s)
    show ?case
    proof (intro allI impI)
      fix cu assume s: "py_str cu = s"
      let ?subset = "filter (\<lambda>r. CU r = Str s) bd"
      have "\<forall>row \<in> set ?subset. \<exists>n. needs_breakdown row \<longrightarrow>
              (\<exists>res. \<forall>depth \<ge> n. recursive_breakdown depth bd (CHILD_CU row) = Inr res)"
      proof
        fix row assume row: "row \<in> set ?subset"
        show "\<exists>n. needs_breakdown row \<longrightarrow>
              (\<exists>res. \<forall>depth \<ge> n. recursive_breakdown depth bd (CHILD_CU row) = Inr res)"
        proof (cases "needs_breakdown row")
          case True
          with row have "(py_str (CHILD_CU row), s) \<in> (descent_edges bd)\<inverse>"
            by (auto simp: descent_edges_def)
          from less.IH [OF this] True show ?thesis by blast
        next
          case False
          then show ?thesis by simp
        qed
      qed
      then obtain f where f: "\<And>row. row \<in> set ?subset \<Longrightarrow> needs_breakdown row \<Longrightarrow>
          \<exists>res. \<forall>depth \<ge> f row. recursive_breakdown depth bd (CHILD_CU row) = Inr res"
        by metis
      define n where "n = Suc (Max (insert 0 (f ` set ?subset)))"
      have bound: "f row \<le> Max (insert 0 (f ` set ?subset))" if "row \<in> set ?subset" for row
        using that by (intro Max_ge) auto
      define g where "g = recursive_breakdown (n - 1) bd"
      have same: "recursive_breakdown depth bd (CHILD_CU row) = g (CHILD_CU row)"
        if "row \<in> set ?subset" "needs_breakdown row" "depth \<ge> n - 1" for row depth
      proof -
        from f [OF that(1,2)] obtain res where
          res: "\<forall>depth \<ge> f row. recursive_breakdown depth bd (CHILD_CU row) = Inr res" by blast
        have "f row \<le> n - 1" using bound [OF that(1)] by (simp add: n_def)
        with res that(3) show ?thesis by (simp add: g_def)
      qed
      have ok: "\<exists>deeper. g (CHILD_CU row) = Inr deeper"
        if "row \<in> set ?subset" "needs_breakdown row" for row
      proof -
        from f [OF that] obtain res where
          res: "\<forall>depth \<ge> f row. recursive_breakdown depth bd (CHILD_CU row) = Inr res" by blast
        have "f row \<le> n - 1" using bound [OF that(1)] by (simp add: n_def)
        with res show ?thesis by (simp add: g_def)
      qed
      have "recursive_breakdown depth bd cu =
              (if Str s \<notin> set (map CU bd) then Inr [] else Inr (concat (map (contribution g) ?subset)))"
        if "depth \<ge> n" for depth
      proof -
        from that obtain d where d: "depth = Suc d" "d \<ge> n - 1"
          by (cases depth) (auto simp: n_def)
        have agree: "\<forall>row \<in> set ?subset. needs_breakdown row \<longrightarrow>
                 recursive_breakdown d bd (CHILD_CU row) = g (CHILD_CU row)"
          using same d(2) by blast
        have "breakdown_loop (recursive_breakdown d bd) ?subset [] =
                Inr (concat (map (contribution g) ?subset))"
          unfolding loop_result
        proof (intro conjI ballI impI)
          fix row assume "row \<in> set ?subset" "needs_breakdown row"
          with agree ok show "\<exists>deeper. recursive_breakdown d bd (CHILD_CU row) = Inr deeper"
            by metis
        next
          have eq: "map (contribution (recursive_breakdown d bd)) ?subset = map (contribution g) ?subset"
            using agree by (intro map_cong refl) (auto simp: contribution_def)
          show "concat (map (contribution g) ?subset) =
                 [] @ concat (map (contribution (recursive_breakdown d bd)) ?subset)"
            unfolding eq by simp
        qed
        then show ?thesis by (simp add: d(1) s Let_def)
      qed
      then show "\<exists>n res. \<forall>depth \<ge> n. recursive_breakdown depth bd cu = Inr res"
        by metis
    qed
  qed
  then show ?thesis by blast
qed


lemma result_rows_have_stock_code:
  "recursive_breakdown depth bd cu = Inr res \<Longrightarrow> \<forall>row \<in> set res. notna (STOCK_CODE row)"
proof (induction depth arbitrary: cu res)
  case 0
  then show ?case by simp
next
  case (Suc depth)
  show ?case
  proof (cases "Str (py_str cu) \<notin> set (map CU bd)")
    case True
    with Suc.prems show ?thesis by (simp add: Let_def)
  next
    case False
    let ?subset = "filter (\<lambda>r. CU r = Str (py_str cu)) bd"
    from False Suc.prems
    have "breakdown_loop (recursive_breakdown depth bd) ?subset [] = Inr res"
      by (simp add: Let_def)
    then have ok: "\<forall>row \<in> set ?subset. needs_breakdown row \<longrightarrow>
                 (\<exists>deeper. recursive_breakdown depth bd (CHILD_CU row) = Inr deeper)"
      and res: "res = concat (map (contribution (recursive_breakdown depth bd)) ?subset)"
      by (simp_all add: loop_result)
    show ?thesis
    proof
      fix r assume "r \<in> set res"
      with res obtain row where row: "row \<in> set ?subset"
        and r: "r \<in> set (contribution (recursive_breakdown depth bd) row)"
        by auto
      show "notna (STOCK_CODE r)"
      proof (cases "needs_breakdown row")
        case True
        with ok row obtain deeper where d: "recursive_breakdown depth bd (CHILD_CU row) = Inr deeper"
          by blast
        with True r have "r \<in> set deeper" by (simp add: contribution_def)
        with Suc.IH [OF d] show ?thesis by blast
      next
        case False
        with r show ?thesis by (auto simp: contribution_def split: if_splits)
      qed
    qed
  qed
qed

lemma path_exhausts_depth:
  "(py_str cu, y) \<in> descent_edges bd ^^ depth \<Longrightarrow>
     recursive_breakdown depth bd cu = Inl RecursionError"
proof (induction depth arbitrary: cu y)
  case 0
  show ?case by simp
next
  case (Suc depth)
  from Suc.prems obtain c where
    e: "(py_str cu, c) \<in> descent_edges bd" and p: "(c, y) \<in> descent_edges bd ^^ depth"
    by (blast dest: relpow_Suc_D2)
  from e obtain row where row: "row \<in> set bd" "CU row = Str (py_str cu)" "needs_breakdown row"
    and c: "c = py_str (CHILD_CU row)"
    by (auto simp: descent_edges_def)
  from p c have "recursive_breakdown depth bd (CHILD_CU row) = Inl RecursionError"
    by (simp add: Suc.IH)
  moreover from row have "row \<in> set (filter (\<lambda>r. CU r = Str (py_str cu)) bd)"
    by simp
  ultimately have "breakdown_loop (recursive_breakdown depth bd)
      (filter (\<lambda>r. CU r = Str (py_str cu)) bd) [] = Inl RecursionError"
    using row(3) by (rule loop_error [rotated 2])
  moreover from row have "Str (py_str cu) \<in> set (map CU bd)"
    by (metis image_eqI list.set_map)
  ultimately show ?case by (simp add: Let_def)
qed

lemma cycle_has_paths:
  assumes "(x, x) \<in> r\<^sup>+"
  shows "\<exists>y. (x, y) \<in> r ^^ n \<and> (y, x) \<in> r\<^sup>*"
proof (induction n)
  case 0
  show ?case by auto
next
  case (Suc n)
  then obtain y where y: "(x, y) \<in> r ^^ n" "(y, x) \<in> r\<^sup>*" by blast
  have "\<exists>z. (y, z) \<in> r \<and> (z, x) \<in> r\<^sup>*"
  proof (cases "y = x")
    case True
    with assms show ?thesis by (blast dest: tranclD)
  next
    case False
    with y(2) show ?thesis by (blast elim: converse_rtranclE)
  qed
  then obtain z where "(y, z) \<in> r" "(z, x) \<in> r\<^sup>*" by blast
  with y(1) show ?case by auto
qed

lemma reachable_cycle_has_paths:
  assumes "(s, x) \<in> r\<^sup>*" and "(x, x) \<in> r\<^sup>+"
  shows "\<exists>y. (s, y) \<in> r ^^ n"
proof -
  from assms(1) obtain k where k: "(s, x) \<in> r ^^ k"
    by (blast dest: rtrancl_imp_relpow)
  from cycle_has_paths [OF assms(2), of n] obtain y where "(x, y) \<in> r ^^ n" by blast
  with k have "(s, y) \<in> r ^^ k O r ^^ n"
    by blast
  then have "(s, y) \<in> r ^^ (n + k)"
    by (simp add: relpow_add add.commute)
  then have "(s, y) \<in> r ^^ n O r ^^ k"
    by (simp only: relpow_add)
  then show ?thesis
    by blast
qed

lemma cycle_exhausts_depth:
  assumes "(py_str cu, x) \<in> (descent_edges bd)\<^sup>*" and "(x, x) \<in> (descent_edges bd)\<^sup>+"
  shows "recursive_breakdown depth bd cu = Inl RecursionError"
proof -
  from reachable_cycle_has_paths [OF assms, of depth]
  obtain y where "(py_str cu, y) \<in> descent_edges bd ^^ depth" by blast
  then show ?thesis by (rule path_exhausts_depth)
qed

lemma scenario_edges: "descent_edges scenario = {(''10'', ''20'')}"
  by (auto simp: descent_edges_def scenario_def needs_breakdown_def notna_def)

lemma isna_iff: "isna x \<longleftrightarrow> x = NaN"
  by (cases x) simp_all

lemma notna_iff: "notna x \<longleftrightarrow> x \<noteq> NaN"
  by (simp add: notna_def isna_iff)

lemma recursive_breakdown_Suc:
  "recursive_breakdown (Suc depth) bd cu = Inr res \<longleftrightarrow>
     (\<forall>row \<in> set (filter (\<lambda>r. CU r = Str (py_str cu)) bd). needs_breakdown row \<longrightarrow>
        (\<exists>deeper. recursive_breakdown depth bd (CHILD_CU row) = Inr deeper)) \<and>
     res = concat (map (contribution (recursive_breakdown depth bd))
                     (filter (\<lambda>r. CU r = Str (py_str cu)) bd))"
proof (cases "Str (py_str cu) \<in> set (map CU bd)")
  case True
  then show ?thesis by (simp add: Let_def loop_result)
next
  case False
  then have "filter (\<lambda>r. CU r = Str (py_str cu)) bd = []"
    unfolding filter_empty_conv by (metis image_eqI list.set_map)
  with False show ?thesis by (auto simp: Let_def)
qed

lemma scenario_result:
  "recursive_breakdown (Suc (Suc depth)) scenario (Str ''10'') =
     Inr [\<lparr>CU = Str ''20'', CHILD_CU = NaN, STOCK_CODE = Str ''500'', QTY = Num 3\<rparr>,
          \<lparr>CU = Str ''20'', CHILD_CU = NaN, STOCK_CODE = Str ''501'', QTY = Num 1\<rparr>]"
  by (simp add: scenario_def notna_def Let_def)

lemma leaf_row_in_result:
  assumes "recursive_breakdown depth bd cu = Inr res"
    and "row \<in> set bd" and "CU row = Str (py_str cu)" and "STOCK_CODE row \<noteq> NaN"
  shows "row \<in> set res"
proof (cases depth)
  case 0
  with assms(1) show ?thesis by simp
next
  case (Suc d)
  from assms(4) have n: "notna (STOCK_CODE row)"
    by (cases "STOCK_CODE row") (simp_all add: notna_def)
  then have "contribution (recursive_breakdown d bd) row = [row]"
    by (simp add: contribution_def leaf_not_descend)
  moreover from assms(2,3) have "row \<in> set (filter (\<lambda>r. CU r = Str (py_str cu)) bd)"
    by simp
  moreover from assms(1) Suc
  have "res = concat (map (contribution (recursive_breakdown d bd))
                     (filter (\<lambda>r. CU r = Str (py_str cu)) bd))"
    by (simp only: recursive_breakdown_Suc)
  ultimately show ?thesis by force
qed

lemma only_leaves_result:
  assumes "\<forall>row \<in> set bd. CU row = Str (py_str cu) \<longrightarrow> STOCK_CODE row \<noteq> NaN \<or> CHILD_CU row = NaN"
  shows "recursive_breakdown (Suc depth) bd cu =
           Inr (filter (\<lambda>row. CU row = Str (py_str cu) \<and> STOCK_CODE row \<noteq> NaN) bd)"
proof -
  let ?subset = "filter (\<lambda>r. CU r = Str (py_str cu)) bd"
  have nb: "\<not> needs_breakdown row" if "row \<in> set ?subset" for row
    using that assms by (auto simp: needs_breakdown_def notna_iff isna_iff)
  have "contribution (recursive_breakdown depth bd) row = (if STOCK_CODE row \<noteq> NaN then [row] else [])"
    if "row \<in> set ?subset" for row
    using nb [OF that] by (simp add: contribution_def notna_iff)
  then have "map (contribution (recursive_breakdown depth bd)) ?subset =
             map (\<lambda>row. if STOCK_CODE row \<noteq> NaN then [row] else []) ?subset"
    by (intro map_cong refl)
  moreover have "concat (map (\<lambda>row. if P row then [row] else []) xs) = filter P xs" for P and xs :: "breakdown_row list"
    by (induction xs) simp_all
  ultimately have "concat (map (contribution (recursive_breakdown depth bd)) ?subset) =
      filter (\<lambda>row. STOCK_CODE row \<noteq> NaN) ?subset"
    by (simp only:)
  also have "\<dots> = filter (\<lambda>row. CU row = Str (py_str cu) \<and> STOCK_CODE row \<noteq> NaN) bd"
    by (simp add: conj_commute)
  finally have "concat (map (contribution (recursive_breakdown depth bd)) ?subset) =
      filter (\<lambda>row. CU row = Str (py_str cu) \<and> STOCK_CODE row \<noteq> NaN) bd" .
  with nb show ?thesis
    by (simp only: recursive_breakdown_Suc) blast
qed

lemma lstrip_all_zeros: "set zs \<subseteq> {CHR ''0''} \<Longrightarrow> lstrip_zeros zs = []"
  by (auto simp: lstrip_zeros_def)

lemma breakdowns_load_data:
  "breakdowns (load_data l b s k) =
     map (\<lambda>r. r\<lparr>STOCK_CODE := strip_leading_zeros (STOCK_CODE r),
                CU := remove_sc000_prefix (CU r),
                CHILD_CU := remove_sc000_prefix (CHILD_CU r)\<rparr>) b"
  by (simp add: load_data_def Let_def comp_def)

lemma sc_desc_load_data:
  "sc_desc (load_data l b s k) =
     map (\<lambda>r. r\<lparr>Stock_Code1 := strip_leading_zeros (Stock_Code1 r)\<rparr>) s"
  by (simp add: load_data_def Let_def)

section \<open>Normalization, lookup and search: auxiliary facts\<close>

lemma lstrip_zeros_no_leading_zero: "\<not> startswith (lstrip_zeros s) ''0''"
proof (cases "lstrip_zeros s")
  case Nil
  then show ?thesis by (simp add: startswith_def)
next
  case (Cons c cs)
  then have "dropWhile (\<lambda>c. c = CHR ''0'') s \<noteq> []"
    by (simp add: lstrip_zeros_def)
  then have "hd (dropWhile (\<lambda>c. c = CHR ''0'') s) \<noteq> CHR ''0''"
    by (rule hd_dropWhile)
  with Cons show ?thesis
    by (simp add: startswith_def lstrip_zeros_def)
qed

lemma strip_leading_zeros_cases:
  "strip_leading_zeros x = NaN \<or>
   (\<exists>code. strip_leading_zeros x = Str code \<and> \<not> startswith code ''0'')"
  by (cases x) (simp_all add: strip_leading_zeros_def notna_def lstrip_zeros_no_leading_zero)

lemma lstrip_zeros_idem: "lstrip_zeros (lstrip_zeros s) = lstrip_zeros s"
proof (cases "lstrip_zeros s")
  case Nil
  then show ?thesis by (simp add: lstrip_zeros_def)
next
  case (Cons c cs)
  with lstrip_zeros_no_leading_zero [of s] have "c \<noteq> CHR ''0''"
    by (simp add: startswith_def)
  with Cons show ?thesis by (simp add: lstrip_zeros_def)
qed

lemma strip_leading_zeros_idem:
  "strip_leading_zeros (strip_leading_zeros x) = strip_leading_zeros x"
  by (cases x) (simp_all add: strip_leading_zeros_def notna_def lstrip_zeros_idem)

lemma remove_sc000_prefix_fixed:
  "remove_sc000_prefix v = v \<longleftrightarrow> \<not> has_sc000_prefix v"
proof (cases v)
  case (Str val)
  show ?thesis
  proof (cases "startswith (lower val) ''sc000''")
    case True
    then have "length val \<ge> 5"
      by (auto simp: startswith_def lower_def dest: arg_cong [where f = length])
    then have "drop 5 val \<noteq> val"
      by (metis length_drop diff_less less_le_trans zero_less_numeral less_irrefl)
    with True Str show ?thesis by (simp add: has_sc000_prefix_def)
  next
    case False
    with Str show ?thesis by (simp add: has_sc000_prefix_def)
  qed
qed (simp_all add: has_sc000_prefix_def)

lemma map_fixed_iff: "map f xs = xs \<longleftrightarrow> (\<forall>x \<in> set xs. f x = x)"
  by (induction xs) auto

lemma normalize_row_fixed:
  fixes r :: breakdown_row
  shows "r\<lparr>STOCK_CODE := a, CU := b, CHILD_CU := c\<rparr> = r \<longleftrightarrow>
         a = STOCK_CODE r \<and> b = CU r \<and> c = CHILD_CU r"
  by (cases r) auto

lemma filter_first:
  assumes "\<forall>x \<in> set pre. \<not> P x" and "P r"
  shows "filter P (pre @ r # post) = r # filter P post"
  using assms by (simp add: filter_empty_conv [THEN iffD2])


lemma primary_hit:
  assumes "\<forall>x \<in> set pre. astype_str (Stock_Code1 x) \<noteq> py_str sc_id"
    and "astype_str (Stock_Code1 r) = py_str sc_id"
  shows "get_sc_description (pre @ r # post) backup_desc_t sc_id = primary_entry r"
proof -
  have eq: "filter (\<lambda>r. astype_str (Stock_Code1 r) = py_str sc_id) (pre @ r # post) =
          r # filter (\<lambda>r. astype_str (Stock_Code1 r) = py_str sc_id) post"
    using assms by (intro filter_first) auto
  show ?thesis
    by (simp only: get_sc_description_def Let_def eq)
      (simp add: primary_entry_def get_default_def)
qed

lemma primary_miss:
  "\<not> in_primary sc_desc_t sc_id \<Longrightarrow>
     filter (\<lambda>r. astype_str (Stock_Code1 r) = py_str sc_id) sc_desc_t = []"
  by (auto simp: in_primary_def filter_empty_conv)

lemma backup_hit:
  assumes "\<not> in_primary sc_desc_t sc_id"
    and "\<forall>x \<in> set pre. astype_str (SC_backup x) \<noteq> py_str sc_id"
    and "astype_str (SC_backup r) = py_str sc_id"
  shows "get_sc_description sc_desc_t (pre @ r # post) sc_id = backup_entry r"
proof -
  have eq: "filter (\<lambda>r. astype_str (SC_backup r) = py_str sc_id) (pre @ r # post) =
          r # filter (\<lambda>r. astype_str (SC_backup r) = py_str sc_id) post"
    using assms(2,3) by (intro filter_first) auto
  show ?thesis
    by (simp only: get_sc_description_def Let_def eq primary_miss [OF assms(1)])
      (simp add: backup_entry_def)
qed


lemma is_substring_iff: "is_substring sub s \<longleftrightarrow> (\<exists>pre post. s = pre @ sub @ post)"
proof (induction s)
  case Nil
  show ?case by auto
next
  case (Cons c s)
  show ?case
  proof
    assume "is_substring sub (c # s)"
    then consider "take (length sub) (c # s) = sub" | "is_substring sub s" by auto
    then show "\<exists>pre post. c # s = pre @ sub @ post"
    proof cases
      case 1
      then have "c # s = [] @ sub @ drop (length sub) (c # s)"
        by (metis append_Nil append_take_drop_id)
      then show ?thesis by blast
    next
      case 2
      with Cons.IH obtain pre post where "s = pre @ sub @ post" by blast
      then have "c # s = (c # pre) @ sub @ post" by simp
      then show ?thesis by blast
    qed
  next
    assume "\<exists>pre post. c # s = pre @ sub @ post"
    then obtain pre post where e: "c # s = pre @ sub @ post" by blast
    show "is_substring sub (c # s)"
    proof (cases pre)
      case Nil
      with e have "take (length sub) (c # s) = sub" by simp
      then show ?thesis by simp
    next
      case (Cons d pre')
      with e have "s = pre' @ sub @ post" by simp
      with Cons.IH show ?thesis by auto
    qed
  qed
qed

lemma re_compile_literal:
  "set q \<inter> set special_chars = {} \<Longrightarrow> re_compile q = Some (map Literal q)"
  by (induction q) (auto simp: special_chars_def)

lemma match_here_literal:
  "match_here False (map Literal q) v \<longleftrightarrow> take (length q) (lower v) = lower q"
proof (induction q arbitrary: v)
  case Nil
  show ?case by (simp add: lower_def)
next
  case (Cons c q)
  show ?case by (cases v) (auto simp: lower_def Cons.IH)
qed

lemma re_search_literal:
  "re_search False (map Literal q) v \<longleftrightarrow> is_substring (lower q) (lower v)"
proof (induction v)
  case Nil
  show ?case by (cases q) (simp_all add: lower_def)
next
  case (Cons c v)
  have "match_here False (map Literal q) (c # v) \<longleftrightarrow>
          take (length (lower q)) (lower (c # v)) = lower q"
    by (simp only: match_here_literal) (simp add: lower_def)
  with Cons.IH show ?case by (simp add: lower_def)
qed

lemma search_literal_query:
  assumes "set query \<inter> set special_chars = {}"
  shows "search listings_t query = Some (spec_search listings_t query)"
  by (simp add: search_def spec_search_def re_compile_literal [OF assms] re_search_literal)

section \<open>Properties of the expansion\<close>

lemma cycle_AB_edges: "descent_edges cycle_AB = {(''A'', ''B''), (''B'', ''A'')}"
  by (auto simp: descent_edges_def cycle_AB_def needs_breakdown_def notna_def)

lemma cycle_AB_cyclic:
  "(''A'', ''A'') \<in> (descent_edges cycle_AB)\<^sup>+"
proof -
  have "(''A'', ''B'') \<in> descent_edges cycle_AB" "(''B'', ''A'') \<in> descent_edges cycle_AB"
    by (simp_all add: cycle_AB_edges)
  then show ?thesis by (rule trancl_into_trancl2 [OF _ r_into_trancl])
qed

text \<open>
  C1, as stated: on the relation with the rows A \<rightarrow> B and B \<rightarrow> A the expansion of A should
  fail with a \<open>CyclicHierarchy\<close> error. The program has no cycle detection and no such
  error: with 1000 nested calls allowed it uses them all and raises \<open>RecursionError\<close>.
\<close>

theorem cycle_counterexample:
  "recursive_breakdown 1000 cycle_AB (Str ''A'') = Inl RecursionError"
  by (rule cycle_exhausts_depth [of _ "''A''"]) (simp_all add: cycle_AB_cyclic)

text \<open>
  C1, amended: whenever a cycle of rows that are broken down further (child CU present,
  stock code missing) can be reached from the root through such rows, the expansion
  returns no result, whatever the number of nested calls allowed: it descends until the
  limit is used up and raises \<open>RecursionError\<close>.
\<close>

theorem cyclic_expansion_raises_recursion_error:
  "(py_str cu, x) \<in> (descent_edges bd)\<^sup>* \<Longrightarrow> (x, x) \<in> (descent_edges bd)\<^sup>+ \<Longrightarrow>
     \<forall>depth. recursive_breakdown depth bd cu = Inl RecursionError"
  by (blast intro: cycle_exhausts_depth)

theorem cyclic_expansion_raises_recursion_error_witness:
  "(py_str (Str ''A''), ''A'') \<in> (descent_edges cycle_AB)\<^sup>* \<and>
   (''A'', ''A'') \<in> (descent_edges cycle_AB)\<^sup>+ \<and>
   (\<forall>depth. recursive_breakdown depth cycle_AB (Str ''A'') = Inl RecursionError)"
proof -
  have r: "(py_str (Str ''A''), ''A'') \<in> (descent_edges cycle_AB)\<^sup>*" by simp
  from r cycle_AB_cyclic cyclic_expansion_raises_recursion_error [OF r cycle_AB_cyclic]
  show ?thesis by blast
qed

text \<open>
  C2: when the graph walked by the recursion has no cycle (as is the case when the whole
  parent-to-child graph has none), the expansion of any root returns a result as soon as
  enough nested calls are allowed, the result does not depend on the limit, and every
  row of it has a stock code (is not \<open>NaN\<close>).
\<close>

theorem acyclic_expansion_terminates:
  assumes "acyclic (descent_edges bd)"
  shows "\<exists>n res. (\<forall>depth \<ge> n. recursive_breakdown depth bd cu = Inr res) \<and>
                 (\<forall>row \<in> set res. STOCK_CODE row \<noteq> NaN)"
proof -
  from expansion_terminates [OF assms] obtain n res where
    r: "\<forall>depth \<ge> n. recursive_breakdown depth bd cu = Inr res" by blast
  then have "recursive_breakdown n bd cu = Inr res" by simp
  then have "\<forall>row \<in> set res. notna (STOCK_CODE row)"
    by (rule result_rows_have_stock_code)
  then have "\<forall>row \<in> set res. STOCK_CODE row \<noteq> NaN"
    by (auto simp: notna_def)
  with r show ?thesis by blast
qed

theorem acyclic_expansion_terminates_witness:
  "acyclic (descent_edges scenario) \<and>
   (\<exists>n res. (\<forall>depth \<ge> n. recursive_breakdown depth scenario (Str ''10'') = Inr res) \<and>
                 (\<forall>row \<in> set res. STOCK_CODE row \<noteq> NaN))"
proof -
  have "acyclic ({} :: (string \<times> string) set)"
    by (simp add: acyclic_def)
  then have a: "acyclic (descent_edges scenario)"
    by (simp add: scenario_edges)
  from a acyclic_expansion_terminates [OF a, of "Str ''10''"] show ?thesis by simp
qed

text \<open>
  C4: over an acyclic relation, once enough nested calls are allowed, every recursive
  call made for a row of the subset returns, and the result for the root is the
  concatenation, in the order of the table, of what each row of the subset contributes:
  the result of the recursive call on its child for a row that is broken down further,
  the row itself for a row with a stock code, nothing otherwise. Nothing is sorted.
  On the three rows of the scenario the expansion of 10 is the row of 500 (quantity 3)
  followed by the row of 501 (quantity 1).
\<close>

theorem expansion_concatenates_in_order:
  assumes "acyclic (descent_edges bd)"
  shows "(\<exists>n. \<forall>depth \<ge> n.
            (\<forall>row \<in> set (filter (\<lambda>r. CU r = Str (py_str cu)) bd). needs_breakdown row \<longrightarrow>
               (\<exists>deeper. recursive_breakdown depth bd (CHILD_CU row) = Inr deeper)) \<and>
            recursive_breakdown (Suc depth) bd cu =
              Inr (concat (map (contribution (recursive_breakdown depth bd))
                             (filter (\<lambda>r. CU r = Str (py_str cu)) bd)))) \<and>
         (\<forall>depth \<ge> 2. recursive_breakdown depth scenario (Str ''10'') =
            Inr [\<lparr>CU = Str ''20'', CHILD_CU = NaN, STOCK_CODE = Str ''500'', QTY = Num 3\<rparr>,
                 \<lparr>CU = Str ''20'', CHILD_CU = NaN, STOCK_CODE = Str ''501'', QTY = Num 1\<rparr>])"
proof (intro conjI allI impI)
  from expansion_terminates [OF assms, of cu] obtain n res where
    r: "\<forall>depth \<ge> n. recursive_breakdown depth bd cu = Inr res" by blast
  have "(\<forall>row \<in> set (filter (\<lambda>r. CU r = Str (py_str cu)) bd). needs_breakdown row \<longrightarrow>
               (\<exists>deeper. recursive_breakdown depth bd (CHILD_CU row) = Inr deeper)) \<and>
            recursive_breakdown (Suc depth) bd cu =
              Inr (concat (map (contribution (recursive_breakdown depth bd))
                             (filter (\<lambda>r. CU r = Str (py_str cu)) bd)))"
    if "depth \<ge> n" for depth
  proof -
    from r that have s: "recursive_breakdown (Suc depth) bd cu = Inr res"
      by (meson le_SucI)
    then have a1: "\<forall>row \<in> set (filter (\<lambda>r. CU r = Str (py_str cu)) bd). needs_breakdown row \<longrightarrow>
               (\<exists>deeper. recursive_breakdown depth bd (CHILD_CU row) = Inr deeper)"
      and a2: "res = concat (map (contribution (recursive_breakdown depth bd))
                             (filter (\<lambda>r. CU r = Str (py_str cu)) bd))"
      using recursive_breakdown_Suc [of depth bd cu res] by blast+
    from s have "recursive_breakdown (Suc depth) bd cu =
              Inr (concat (map (contribution (recursive_breakdown depth bd))
                             (filter (\<lambda>r. CU r = Str (py_str cu)) bd)))"
      unfolding a2 [symmetric] .
    with a1 show ?thesis by (rule conjI)
  qed
  then show "\<exists>n. \<forall>depth \<ge> n.
            (\<forall>row \<in> set (filter (\<lambda>r. CU r = Str (py_str cu)) bd). needs_breakdown row \<longrightarrow>
               (\<exists>deeper. recursive_breakdown depth bd (CHILD_CU row) = Inr deeper)) \<and>
            recursive_breakdown (Suc depth) bd cu =
              Inr (concat (map (contribution (recursive_breakdown depth bd))
                             (filter (\<lambda>r. CU r = Str (py_str cu)) bd)))"
    by blast
next
  fix depth :: nat assume "2 \<le> depth"
  then obtain d where "depth = Suc (Suc d)"
    by (metis Suc_le_D numeral_2_eq_2 Suc_le_mono)
  then show "recursive_breakdown depth scenario (Str ''10'') =
            Inr [\<lparr>CU = Str ''20'', CHILD_CU = NaN, STOCK_CODE = Str ''500'', QTY = Num 3\<rparr>,
                 \<lparr>CU = Str ''20'', CHILD_CU = NaN, STOCK_CODE = Str ''501'', QTY = Num 1\<rparr>]"
    by (simp only: scenario_result)
qed

theorem expansion_concatenates_in_order_witness:
  "acyclic (descent_edges scenario) \<and>
   (\<exists>n. \<forall>depth \<ge> n.
            (\<forall>row \<in> set (filter (\<lambda>r. CU r = Str (py_str (Str ''10''))) scenario). needs_breakdown row \<longrightarrow>
               (\<exists>deeper. recursive_breakdown depth scenario (CHILD_CU row) = Inr deeper)) \<and>
            recursive_breakdown (Suc depth) scenario (Str ''10'') =
              Inr (concat (map (contribution (recursive_breakdown depth scenario))
                             (filter (\<lambda>r. CU r = Str (py_str (Str ''10''))) scenario))))"
proof -
  have "acyclic ({} :: (string \<times> string) set)"
    by (simp add: acyclic_def)
  then have a: "acyclic (descent_edges scenario)"
    by (simp add: scenario_edges)
  from a expansion_concatenates_in_order [OF a, of "Str ''10''"] show ?thesis by blast
qed

text \<open>
  C5: every row of the root that has a stock code is in the result, whether or not it
  also has a child CU. When no row of the root lacks a stock code while having a child
  CU, the expansion succeeds with a single call allowed (so no child is expanded) and
  returns exactly the rows with a stock code, in the order of the table: rows with
  neither a stock code nor a child CU contribute nothing.
\<close>

theorem leaf_rows_are_terminal:
  "(recursive_breakdown depth bd cu = Inr res \<longrightarrow>
      (\<forall>row \<in> set bd. CU row = Str (py_str cu) \<and> STOCK_CODE row \<noteq> NaN \<longrightarrow> row \<in> set res)) \<and>
   ((\<forall>row \<in> set bd. CU row = Str (py_str cu) \<longrightarrow> STOCK_CODE row \<noteq> NaN \<or> CHILD_CU row = NaN) \<longrightarrow>
      recursive_breakdown (Suc depth) bd cu =
        Inr (filter (\<lambda>row. CU row = Str (py_str cu) \<and> STOCK_CODE row \<noteq> NaN) bd))"
  by (blast intro: leaf_row_in_result only_leaves_result)

theorem leaf_rows_are_terminal_witness:
  "recursive_breakdown (Suc 0) leaf_with_child (Str ''A'') =
      Inr [\<lparr>CU = Str ''A'', CHILD_CU = Str ''A'', STOCK_CODE = Str ''500'', QTY = Num 2\<rparr>] \<and>
   list_all (\<lambda>row. CU row = Str (py_str (Str ''A'')) \<and> STOCK_CODE row \<noteq> NaN \<longrightarrow>
         row \<in> set [\<lparr>CU = Str ''A'', CHILD_CU = Str ''A'', STOCK_CODE = Str ''500'', QTY = Num 2\<rparr>])
     leaf_with_child \<and>
   list_all (\<lambda>row. CU row = Str (py_str (Str ''A'')) \<longrightarrow>
         STOCK_CODE row \<noteq> NaN \<or> CHILD_CU row = NaN) leaf_with_child \<and>
   recursive_breakdown (Suc 0) leaf_with_child (Str ''A'') =
        Inr (filter (\<lambda>row. CU row = Str (py_str (Str ''A'')) \<and> STOCK_CODE row \<noteq> NaN) leaf_with_child)"
proof -
  have h: "\<forall>row \<in> set leaf_with_child. CU row = Str (py_str (Str ''A'')) \<longrightarrow>
         STOCK_CODE row \<noteq> NaN \<or> CHILD_CU row = NaN"
    by (simp add: leaf_with_child_def)
  have e: "recursive_breakdown (Suc 0) leaf_with_child (Str ''A'') =
      Inr [\<lparr>CU = Str ''A'', CHILD_CU = Str ''A'', STOCK_CODE = Str ''500'', QTY = Num 2\<rparr>]"
    by (simp add: leaf_with_child_def notna_def Let_def)
  from h e leaf_rows_are_terminal [of "Suc 0" leaf_with_child "Str ''A''"
      "[\<lparr>CU = Str ''A'', CHILD_CU = Str ''A'', STOCK_CODE = Str ''500'', QTY = Num 2\<rparr>]"]
    leaf_rows_are_terminal [of 0 leaf_with_child "Str ''A''"]
  show ?thesis unfolding list_all_iff by blast
qed

text \<open>
  C10: a raw row whose stock code consists of zeros only is loaded with the empty string
  as its stock code; the loaded row counts as having a stock code, and it is in every
  result of the expansion of its CU.
\<close>

theorem all_zero_stock_code_is_terminal:
  assumes "set zs \<subseteq> {CHR ''0''}" and "row \<in> set raw_breakdowns" and "STOCK_CODE row = Str zs"
  shows "\<exists>row' \<in> set (breakdowns (load_data raw_listings raw_breakdowns raw_sc_desc raw_backup_desc)).
           row' = row\<lparr>STOCK_CODE := Str '''', CU := remove_sc000_prefix (CU row),
                      CHILD_CU := remove_sc000_prefix (CHILD_CU row)\<rparr> \<and>
           notna (STOCK_CODE row') \<and>
           (\<forall>depth cu res. CU row' = Str (py_str cu) \<longrightarrow>
              recursive_breakdown depth
                (breakdowns (load_data raw_listings raw_breakdowns raw_sc_desc raw_backup_desc)) cu = Inr res \<longrightarrow>
              row' \<in> set res)"
proof -
  let ?bd = "breakdowns (load_data raw_listings raw_breakdowns raw_sc_desc raw_backup_desc)"
  let ?row' = "row\<lparr>STOCK_CODE := Str '''', CU := remove_sc000_prefix (CU row),
                      CHILD_CU := remove_sc000_prefix (CHILD_CU row)\<rparr>"
  from assms(1,3) have "strip_leading_zeros (STOCK_CODE row) = Str ''''"
    by (simp add: strip_leading_zeros_def notna_def lstrip_all_zeros)
  with assms(2) have in_bd: "?row' \<in> set ?bd"
    unfolding breakdowns_load_data by (force simp: image_iff)
  have "row' \<in> set res" if "CU ?row' = Str (py_str cu)"
    "recursive_breakdown depth ?bd cu = Inr res" "row' = ?row'" for depth cu res row'
    using leaf_row_in_result [OF that(2) in_bd that(1)] that(3) by simp
  with in_bd show ?thesis by (auto simp: notna_def)
qed

theorem all_zero_stock_code_is_terminal_witness:
  "set ''000'' \<subseteq> {CHR ''0''} \<and>
   \<lparr>CU = Str ''SC00012'', CHILD_CU = NaN, STOCK_CODE = Str ''000'', QTY = Num 4\<rparr> \<in> set zero_code_raw \<and>
   breakdowns (load_data [] zero_code_raw [] []) =
     [\<lparr>CU = Str ''12'', CHILD_CU = NaN, STOCK_CODE = Str '''', QTY = Num 4\<rparr>] \<and>
   recursive_breakdown 1 (breakdowns (load_data [] zero_code_raw [] [])) (Str ''12'') =
     Inr [\<lparr>CU = Str ''12'', CHILD_CU = NaN, STOCK_CODE = Str '''', QTY = Num 4\<rparr>] \<and>
   (\<exists>row' \<in> set (breakdowns (load_data [] zero_code_raw [] [])).
       notna (STOCK_CODE row') \<and>
       (\<forall>depth cu res. CU row' = Str (py_str cu) \<longrightarrow>
              recursive_breakdown depth (breakdowns (load_data [] zero_code_raw [] [])) cu = Inr res \<longrightarrow>
              row' \<in> set res))"
proof -
  have z: "set ''000'' \<subseteq> {CHR ''0''}" by simp
  have m: "\<lparr>CU = Str ''SC00012'', CHILD_CU = NaN, STOCK_CODE = Str ''000'', QTY = Num 4\<rparr> \<in> set zero_code_raw"
    by (simp add: zero_code_raw_def)
  have l: "breakdowns (load_data [] zero_code_raw [] []) =
     [\<lparr>CU = Str ''12'', CHILD_CU = NaN, STOCK_CODE = Str '''', QTY = Num 4\<rparr>]"
    by (simp add: load_data_def zero_code_raw_def Let_def strip_leading_zeros_def notna_def
        lstrip_zeros_def startswith_def lower_def lower_char_def)
  have e: "recursive_breakdown 1 [\<lparr>CU = Str ''12'', CHILD_CU = NaN, STOCK_CODE = Str '''', QTY = Num 4\<rparr>] (Str ''12'') =
     Inr [\<lparr>CU = Str ''12'', CHILD_CU = NaN, STOCK_CODE = Str '''', QTY = Num 4\<rparr>]"
    by (simp add: notna_def Let_def)
  have sc: "STOCK_CODE \<lparr>CU = Str ''SC00012'', CHILD_CU = NaN, STOCK_CODE = Str ''000'', QTY = Num 4\<rparr> = Str ''000''"
    by simp
  from all_zero_stock_code_is_terminal [OF z m sc, of "[]" "[]" "[]"]
  have "\<exists>row' \<in> set (breakdowns (load_data [] zero_code_raw [] [])).
       notna (STOCK_CODE row') \<and>
       (\<forall>depth cu res. CU row' = Str (py_str cu) \<longrightarrow>
              recursive_breakdown depth (breakdowns (load_data [] zero_code_raw [] [])) cu = Inr res \<longrightarrow>
              row' \<in> set res)"
    by blast
  with z m l e show ?thesis by (simp only:)
qed

section \<open>Properties of \<open>load_data\<close>\<close>

text \<open>
  C6, as stated: after loading, no parent id and no child id begins with a zero. The
  program strips leading zeros from \<open>STOCK CODE\<close> and \<open>Stock Code1\<close> only; a parent
  id 0123 and a child id 0456 are loaded as they are.
\<close>

theorem parent_child_zeros_counterexample:
  "breakdowns (load_data [] leading_zero_raw [] []) =
     [\<lparr>CU = Str ''0123'', CHILD_CU = Str ''0456'', STOCK_CODE = Str ''500'', QTY = Num 1\<rparr>]"
  by (simp add: load_data_def leading_zero_raw_def Let_def strip_leading_zeros_def notna_def
        lstrip_zeros_def startswith_def lower_def lower_char_def)

text \<open>
  C6, amended: after loading, every stock code of the breakdown table and every
  identifier of the primary catalog is either missing or a string that does not begin
  with a zero; the parent and child ids are the raw ones with the \<open>SC000\<close> prefix
  removed, and keep their leading zeros.
\<close>

theorem stock_codes_have_no_leading_zero:
  "(\<forall>row \<in> set (breakdowns (load_data l b s k)).
      STOCK_CODE row = NaN \<or> (\<exists>code. STOCK_CODE row = Str code \<and> \<not> startswith code ''0'')) \<and>
   (\<forall>row \<in> set (sc_desc (load_data l b s k)).
      Stock_Code1 row = NaN \<or> (\<exists>code. Stock_Code1 row = Str code \<and> \<not> startswith code ''0'')) \<and>
   map CU (breakdowns (load_data l b s k)) = map (\<lambda>row. remove_sc000_prefix (CU row)) b \<and>
   map CHILD_CU (breakdowns (load_data l b s k)) = map (\<lambda>row. remove_sc000_prefix (CHILD_CU row)) b"
  using strip_leading_zeros_cases
  by (auto simp: breakdowns_load_data sc_desc_load_data comp_def)

theorem stock_codes_have_no_leading_zero_witness:
  "breakdowns (load_data [] leading_zero_raw zero_id_catalog []) =
      [\<lparr>CU = Str ''0123'', CHILD_CU = Str ''0456'', STOCK_CODE = Str ''500'', QTY = Num 1\<rparr>] \<and>
   sc_desc (load_data [] leading_zero_raw zero_id_catalog []) =
      [\<lparr>Stock_Code1 = Str [], Description = Str ''Bolt'', UOI = None, Price = None\<rparr>] \<and>
   list_all (\<lambda>row. STOCK_CODE row = NaN \<or> (\<exists>code. STOCK_CODE row = Str code \<and> \<not> startswith code ''0''))
     (breakdowns (load_data [] leading_zero_raw zero_id_catalog [])) \<and>
   list_all (\<lambda>row. Stock_Code1 row = NaN \<or> (\<exists>code. Stock_Code1 row = Str code \<and> \<not> startswith code ''0''))
     (sc_desc (load_data [] leading_zero_raw zero_id_catalog []))"
proof -
  have "breakdowns (load_data [] leading_zero_raw zero_id_catalog []) =
      [\<lparr>CU = Str ''0123'', CHILD_CU = Str ''0456'', STOCK_CODE = Str ''500'', QTY = Num 1\<rparr>]"
    by (simp add: load_data_def leading_zero_raw_def Let_def strip_leading_zeros_def notna_def
        lstrip_zeros_def startswith_def lower_def lower_char_def)
  moreover have "sc_desc (load_data [] leading_zero_raw zero_id_catalog []) =
      [\<lparr>Stock_Code1 = Str [], Description = Str ''Bolt'', UOI = None, Price = None\<rparr>]"
    by (simp add: sc_desc_load_data zero_id_catalog_def strip_leading_zeros_def notna_def
        lstrip_zeros_def str_int_def digit_char_def)
  ultimately show ?thesis
    using stock_codes_have_no_leading_zero [of "[]" leading_zero_raw zero_id_catalog "[]"]
    unfolding list_all_iff by blast
qed

text \<open>
  C8, as stated: normalizing an identifier that is already normalized changes nothing.
  The prefix strip removes one occurrence of the prefix: the parent id SC000SC0001 is
  loaded as SC0001, and loading the loaded table again gives 1.
\<close>

theorem normalization_twice_counterexample:
  "breakdowns (load_data [] double_prefix_raw [] []) =
     [\<lparr>CU = Str ''SC0001'', CHILD_CU = NaN, STOCK_CODE = Str ''7'', QTY = Num 1\<rparr>] \<and>
   breakdowns (load_data [] (breakdowns (load_data [] double_prefix_raw [] [])) [] []) =
     [\<lparr>CU = Str ''1'', CHILD_CU = NaN, STOCK_CODE = Str ''7'', QTY = Num 1\<rparr>]"
  by (simp add: load_data_def double_prefix_raw_def Let_def strip_leading_zeros_def notna_def
        lstrip_zeros_def startswith_def lower_def lower_char_def)

text \<open>
  C8, amended: loading the loaded tables again leaves the listings, both catalogs and
  every stock code as they are (stripping leading zeros is idempotent); the breakdown
  table is left as it is exactly when no loaded parent or child id still begins with
  \<open>SC000\<close> in any mix of cases.
\<close>

theorem normalization_twice:
  "let t = load_data l b s k;
       t' = load_data (listings t) (breakdowns t) (sc_desc t) (backup_desc t)
   in listings t' = listings t \<and> sc_desc t' = sc_desc t \<and> backup_desc t' = backup_desc t \<and>
      map STOCK_CODE (breakdowns t') = map STOCK_CODE (breakdowns t) \<and>
      (breakdowns t' = breakdowns t \<longleftrightarrow>
         (\<forall>row \<in> set (breakdowns t).
            \<not> has_sc000_prefix (CU row) \<and> \<not> has_sc000_prefix (CHILD_CU row)))"
proof -
  define t where "t = load_data l b s k"
  define t' where "t' = load_data (listings t) (breakdowns t) (sc_desc t) (backup_desc t)"
  have l: "listings t' = listings t"
    by (simp add: t'_def t_def load_data_def Let_def)
  have d: "sc_desc t' = sc_desc t"
    unfolding t'_def sc_desc_load_data unfolding t_def sc_desc_load_data
    by (simp add: comp_def strip_leading_zeros_idem)
  have k: "backup_desc t' = backup_desc t"
    by (simp add: t'_def t_def load_data_def Let_def)
  have sc: "strip_leading_zeros (STOCK_CODE row) = STOCK_CODE row" if "row \<in> set (breakdowns t)" for row
    using that unfolding t_def breakdowns_load_data
    by (auto simp: strip_leading_zeros_idem)
  have st: "map STOCK_CODE (breakdowns t') = map STOCK_CODE (breakdowns t)"
    unfolding t'_def breakdowns_load_data using sc by (simp add: comp_def)
  have "breakdowns t' = breakdowns t \<longleftrightarrow>
         (\<forall>row \<in> set (breakdowns t).
            \<not> has_sc000_prefix (CU row) \<and> \<not> has_sc000_prefix (CHILD_CU row))"
    unfolding t'_def breakdowns_load_data map_fixed_iff normalize_row_fixed
    using sc by (auto simp: remove_sc000_prefix_fixed)
  with l d k st show ?thesis
    unfolding t_def [symmetric] Let_def t'_def [symmetric] by blast
qed

theorem normalization_twice_witness:
  "breakdowns (load_data [] one_prefix_raw [] []) =
      [\<lparr>CU = Str ''12'', CHILD_CU = Str ''34'', STOCK_CODE = Str ''7'', QTY = Num 1\<rparr>] \<and>
   list_all (\<lambda>row. \<not> has_sc000_prefix (CU row) \<and> \<not> has_sc000_prefix (CHILD_CU row))
     (breakdowns (load_data [] one_prefix_raw [] [])) \<and>
   breakdowns (load_data (listings (load_data [] one_prefix_raw [] []))
                 (breakdowns (load_data [] one_prefix_raw [] []))
                 (sc_desc (load_data [] one_prefix_raw [] []))
                 (backup_desc (load_data [] one_prefix_raw [] []))) =
     breakdowns (load_data [] one_prefix_raw [] [])"
proof -
  have e: "breakdowns (load_data [] one_prefix_raw [] []) =
      [\<lparr>CU = Str ''12'', CHILD_CU = Str ''34'', STOCK_CODE = Str ''7'', QTY = Num 1\<rparr>]"
    by (simp add: load_data_def one_prefix_raw_def Let_def strip_leading_zeros_def notna_def
        lstrip_zeros_def startswith_def lower_def lower_char_def)
  have h: "\<forall>row \<in> set (breakdowns (load_data [] one_prefix_raw [] [])).
            \<not> has_sc000_prefix (CU row) \<and> \<not> has_sc000_prefix (CHILD_CU row)"
    unfolding e by (simp add: has_sc000_prefix_def startswith_def lower_def lower_char_def)
  from e h normalization_twice [of "[]" one_prefix_raw "[]" "[]"] show ?thesis
    unfolding Let_def list_all_iff by blast
qed

section \<open>Properties of \<open>get_sc_description\<close>\<close>




text \<open>
  C9: the result is the entry of the first row, in the order of the catalog, whose
  identifier matches; the rows after it, duplicates included, have no influence on the
  result. The same holds for the backup catalog when the primary catalog has no match.
\<close>

theorem first_matching_row_wins:
  "((\<forall>x \<in> set pre. astype_str (Stock_Code1 x) \<noteq> py_str sc_id) \<and>
      astype_str (Stock_Code1 r) = py_str sc_id \<longrightarrow>
      get_sc_description (pre @ r # post) backup_desc_t sc_id = primary_entry r) \<and>
   (\<not> in_primary sc_desc_t sc_id \<and>
      (\<forall>x \<in> set bpre. astype_str (SC_backup x) \<noteq> py_str sc_id) \<and>
      astype_str (SC_backup b) = py_str sc_id \<longrightarrow>
      get_sc_description sc_desc_t (bpre @ b # bpost) sc_id = backup_entry b)"
  using primary_hit backup_hit by blast

theorem first_matching_row_wins_witness:
  "list_all (\<lambda>x. astype_str (Stock_Code1 x) \<noteq> py_str (Str ''500'')) ([] :: sc_desc_row list) \<and>
   astype_str (Stock_Code1 (hd primary_cat)) = py_str (Str ''500'') \<and>
   astype_str (Stock_Code1 (hd (tl primary_cat))) = py_str (Str ''500'') \<and>
   get_sc_description primary_cat backup_cat (Str ''500'') = primary_entry (hd primary_cat) \<and>
   \<not> in_primary primary_cat (Str ''501'') \<and>
   list_all (\<lambda>x. astype_str (SC_backup x) \<noteq> py_str (Str ''501'')) [hd backup_cat] \<and>
   astype_str (SC_backup (hd (tl backup_cat))) = py_str (Str ''501'') \<and>
   astype_str (SC_backup (hd (tl (tl backup_cat)))) = py_str (Str ''501'') \<and>
   get_sc_description primary_cat backup_cat (Str ''501'') = backup_entry (hd (tl backup_cat))"
  using first_matching_row_wins [where pre = "[]" and sc_id = "Str ''500''" and r = "hd primary_cat"
      and post = "tl primary_cat" and backup_desc_t = backup_cat]
    first_matching_row_wins [where sc_desc_t = primary_cat and sc_id = "Str ''501''"
      and bpre = "[hd backup_cat]" and b = "hd (tl backup_cat)" and bpost = "tl (tl backup_cat)"]
  by (simp add: in_primary_def primary_cat_def backup_cat_def astype_str_def
      primary_entry_def backup_entry_def get_sc_description_def get_default_def)

section \<open>Properties of the search\<close>

text \<open>
  C7: a record should be kept if and only if one of its attributes contains the query
  as a substring, cases ignored. The lower-case query abc finds ABC123 and the empty
  query finds every record, as claimed; but the query is compiled as a regular
  expression, so a.c finds ABC123 and axc, neither of which contains the text a.c.
\<close>

theorem search_query_is_a_pattern:
  "search abc_listing ''abc'' = Some [[(''Description 2'', Str ''ABC123'')]] \<and>
   search abc_listing [] = Some abc_listing \<and>
   search abc_listing ''a.c'' = Some abc_listing \<and>
   spec_search abc_listing ''a.c'' = []"
  by (simp add: search_def spec_search_def abc_listing_def astype_str_def special_chars_def
      lower_def lower_char_def)

end
